theory Spec2Isabelle
  imports Complex_Main "HOL-Library.Sublist"
begin

section \<open>A Bloom filter: BloomFilterHW.py\<close>

text \<open>
  The class \<^verbatim>\<open>BloomFilter\<close> of \<^verbatim>\<open>BloomFilterHW.py\<close> is embedded with explicit state
  passing: a method takes the object and returns the object it leaves behind, together
  with its result. A Python exception is a value \<open>Inl e\<close>.
\<close>

datatype error = ZeroDivisionError | ValueError | TypeError

subsection \<open>Python numbers\<close>

text \<open>
  Python's \<^verbatim>\<open>int\<close> is \<open>int\<close>. A Python \<^verbatim>\<open>float\<close> is read as the real number it
  stands for and every operation on floats as the exact operation on reals: the rounding
  of IEEE doubles, overflow, infinities and NaN are not part of this embedding. Where the
  rounding matters the two differ: for \<^verbatim>\<open>BloomFilter(1, 1, 0.05)\<close> the doubles give 19 bits
  and the exact formula 20. So nothing below states which size the constructor computes
  from parameters in general. The closed evaluations below are at inputs where the double
  computation is exact as well, or where the truncation to an integer does not depend on
  the last bits, and the general statements about the constructor are about a division by
  zero or about a rate of exactly 1.0.

  In Python 3 a negative float raised to a non-integral power is a \<^verbatim>\<open>complex\<close>, and
  arithmetic of a float with a complex stays complex. \<open>Complex\<close> stands for such a value
  (one off the real axis); what it is exactly never matters, since \<^verbatim>\<open>int()\<close> refuses
  every complex.
\<close>

datatype pynum = Float real | Complex

text \<open>
  \<^verbatim>\<open>x ** y\<close> for floats \<open>x\<close> and \<open>y\<close>, in the case order of CPython's \<^verbatim>\<open>float_pow\<close>,
  without its \<^verbatim>\<open>OverflowError\<close> for a result beyond the range of doubles.
\<close>

definition py_pow :: "real \<Rightarrow> real \<Rightarrow> error + pynum" where
  "py_pow x y =
     (if y = 0 then Inr (Float 1)
      else if x = 0 then (if y < 0 then Inl ZeroDivisionError else Inr (Float 0))
      else if x < 0 then
        (if of_int \<lfloor>y\<rfloor> = y then Inr (Float (x powi \<lfloor>y\<rfloor>)) else Inr Complex)
      else Inr (Float (x powr y)))"

text \<open>\<^verbatim>\<open>a ** y\<close> where \<open>a\<close> may already be complex.\<close>

definition pow_num :: "pynum \<Rightarrow> real \<Rightarrow> error + pynum" where
  "pow_num a y = (case a of Float x \<Rightarrow> py_pow x y | Complex \<Rightarrow> Inr Complex)"

text \<open>\<^verbatim>\<open>x - a\<close> and \<^verbatim>\<open>x / a\<close> for a float \<open>x\<close>.\<close>

definition sub_num :: "real \<Rightarrow> pynum \<Rightarrow> pynum" where
  "sub_num x a = (case a of Float y \<Rightarrow> Float (x - y) | Complex \<Rightarrow> Complex)"

definition div_num :: "real \<Rightarrow> pynum \<Rightarrow> error + pynum" where
  "div_num x a =
     (case a of
        Float y \<Rightarrow> if y = 0 then Inl ZeroDivisionError else Inr (Float (x / y))
      | Complex \<Rightarrow> Inr Complex)"

text \<open>\<^verbatim>\<open>int(a)\<close>: truncation towards zero; a complex argument raises \<^verbatim>\<open>TypeError\<close>.\<close>

definition int_num :: "pynum \<Rightarrow> error + int" where
  "int_num a =
     (case a of
        Float x \<Rightarrow> Inr (if 0 \<le> x then \<lfloor>x\<rfloor> else \<lceil>x\<rceil>)
      | Complex \<Rightarrow> Inl TypeError)"

subsection \<open>The bit vector\<close>

text \<open>
  Modelled from the spec: the class \<^verbatim>\<open>BitVector\<close> that the source imports is not part of
  the source file. The spec describes \<open>bits\<close> as a fixed-length array of bits of length
  \<open>capacityBits\<close> with get and set by index; it is a list of booleans here.
  \<^verbatim>\<open>BitVector(size = n)\<close> is \<open>n\<close> zero bits (the empty vector for \<open>n = 0\<close>) and refuses a
  negative \<open>n\<close>. An index follows Python's convention: a negative one counts from the
  end, and one outside the vector raises.
\<close>

definition BitVector :: "int \<Rightarrow> error + bool list" where
  "BitVector n = (if 0 \<le> n then Inr (replicate (nat n) False) else Inl ValueError)"

definition getbit :: "bool list \<Rightarrow> int \<Rightarrow> error + bool" where
  "getbit v i =
     (let n = int (length v)
      in if n \<le> i \<or> i < - n then Inl ValueError
         else Inr (v ! nat (if i < 0 then n + i else i)))"

definition setbit :: "bool list \<Rightarrow> int \<Rightarrow> bool \<Rightarrow> error + bool list" where
  "setbit v i b =
     (let n = int (length v)
      in if n \<le> i \<or> i < - n then Inl ValueError
         else Inr (v[nat (if i < 0 then n + i else i) := b]))"

subsection \<open>The object and its constructor\<close>

text \<open>
  The private attributes \<^verbatim>\<open>__size\<close>, \<^verbatim>\<open>__bv\<close>, \<^verbatim>\<open>__numKeys\<close>, \<^verbatim>\<open>__numHashes\<close>,
  \<^verbatim>\<open>__maxFalsePositive\<close> and \<^verbatim>\<open>__numBitsSet\<close>. The fields \<open>size'\<close> and \<open>numBitsSet'\<close>
  carry a prime: \<open>size\<close> is a constant of HOL and \<open>numBitsSet\<close> is the accessor method.
\<close>

record BloomFilter =
  size' :: int
  bv :: "bool list"
  numKeys :: int
  numHashes :: int
  maxFalsePositive :: real
  numBitsSet' :: int

text \<open>
  \<^verbatim>\<open>__bitsNeeded\<close>:
  \<^verbatim>\<open>
  phi = (1.0- (maxFalsePositive**(1.0/numHashes)))
  nBits = float(numHashes)/(1.0-(phi**(1.0/numKeys)))
  return int(nBits)
  \<close>
  The divisions \<^verbatim>\<open>1.0/numHashes\<close> and \<^verbatim>\<open>1.0/numKeys\<close> raise on a zero divisor, in the
  order in which Python evaluates them.
\<close>

definition bitsNeeded :: "int \<Rightarrow> int \<Rightarrow> real \<Rightarrow> error + int" where
  "bitsNeeded n k p =
     (if k = 0 then Inl ZeroDivisionError
      else
        (case py_pow p (1 / real_of_int k) of
           Inl e \<Rightarrow> Inl e
         | Inr a \<Rightarrow>
             (let phi = sub_num 1 a in
              if n = 0 then Inl ZeroDivisionError
              else
                (case pow_num phi (1 / real_of_int n) of
                   Inl e \<Rightarrow> Inl e
                 | Inr b \<Rightarrow>
                     (case div_num (real_of_int k) (sub_num 1 b) of
                        Inl e \<Rightarrow> Inl e
                      | Inr nBits \<Rightarrow> int_num nBits)))))"

text \<open>\<^verbatim>\<open>__init__(numKeys, numHashes, maxFalsePositive)\<close>.\<close>

definition BloomFilter_init :: "int \<Rightarrow> int \<Rightarrow> real \<Rightarrow> error + BloomFilter" where
  "BloomFilter_init n k p =
     (case bitsNeeded n k p of
        Inl e \<Rightarrow> Inl e
      | Inr sz \<Rightarrow>
          (case BitVector sz of
             Inl e \<Rightarrow> Inl e
           | Inr v \<Rightarrow>
               Inr \<lparr>size' = sz, bv = v, numKeys = n, numHashes = k,
                    maxFalsePositive = p, numBitsSet' = 0\<rparr>))"

subsection \<open>insert and find\<close>

text \<open>
  The hash function \<^verbatim>\<open>BitHash(key, seed)\<close> is imported by the source and is a parameter
  \<open>H\<close> here; nothing is assumed about it. Both loops run \<^verbatim>\<open>range(self.__numHashes)\<close>,
  that is \<open>nat (numHashes bf)\<close> times, and carry \<open>seed\<close>. Next to the object each loop
  carries the list \<open>vis\<close> of the indices \<open>hv\<close> it has computed and looked up so far; the
  list is a log only and nothing in the loop reads it.
\<close>

fun insert_loop ::
  "('k \<Rightarrow> int \<Rightarrow> int) \<Rightarrow> 'k \<Rightarrow> nat \<Rightarrow> int \<Rightarrow> int list \<times> BloomFilter
     \<Rightarrow> error + int list \<times> BloomFilter" where
  "insert_loop H key 0 seed (vis, bf) = Inr (vis, bf)"
| "insert_loop H key (Suc i) seed (vis, bf) =
     (let h = H key seed in
      if size' bf = 0 then Inl ZeroDivisionError
      else
        let hv = h mod size' bf in
        case getbit (bv bf) hv of
          Inl e \<Rightarrow> Inl e
        | Inr b \<Rightarrow>
            if \<not> b then
              (case setbit (bv bf) hv True of
                 Inl e \<Rightarrow> Inl e
               | Inr v \<Rightarrow>
                   insert_loop H key i h
                     (vis @ [hv], bf\<lparr>bv := v, numBitsSet' := numBitsSet' bf + 1\<rparr>))
            else insert_loop H key i h (vis @ [hv], bf))"

fun find_loop ::
  "('k \<Rightarrow> int \<Rightarrow> int) \<Rightarrow> 'k \<Rightarrow> nat \<Rightarrow> int \<Rightarrow> int list \<times> BloomFilter
     \<Rightarrow> error + int list \<times> bool \<times> BloomFilter" where
  "find_loop H key 0 seed (vis, bf) = Inr (vis, True, bf)"
| "find_loop H key (Suc i) seed (vis, bf) =
     (let h = H key seed in
      if size' bf = 0 then Inl ZeroDivisionError
      else
        let hv = h mod size' bf in
        case getbit (bv bf) hv of
          Inl e \<Rightarrow> Inl e
        | Inr b \<Rightarrow>
            if \<not> b then Inr (vis @ [hv], False, bf)
            else find_loop H key i h (vis @ [hv], bf))"

text \<open>\<^verbatim>\<open>insert(key)\<close>: the object after the call, and the indices the call looked at.\<close>

definition insert_bf :: "('k \<Rightarrow> int \<Rightarrow> int) \<Rightarrow> BloomFilter \<Rightarrow> 'k \<Rightarrow> error + BloomFilter" where
  "insert_bf H bf key =
     (case insert_loop H key (nat (numHashes bf)) 0 ([], bf) of
        Inl e \<Rightarrow> Inl e
      | Inr (vis, bf') \<Rightarrow> Inr bf')"

definition insert_visits :: "('k \<Rightarrow> int \<Rightarrow> int) \<Rightarrow> BloomFilter \<Rightarrow> 'k \<Rightarrow> error + int list" where
  "insert_visits H bf key =
     (case insert_loop H key (nat (numHashes bf)) 0 ([], bf) of
        Inl e \<Rightarrow> Inl e
      | Inr (vis, bf') \<Rightarrow> Inr vis)"

text \<open>\<^verbatim>\<open>find(key)\<close>: the answer with the object after the call, and the indices looked at.\<close>

definition find_bf ::
  "('k \<Rightarrow> int \<Rightarrow> int) \<Rightarrow> BloomFilter \<Rightarrow> 'k \<Rightarrow> error + bool \<times> BloomFilter" where
  "find_bf H bf key =
     (case find_loop H key (nat (numHashes bf)) 0 ([], bf) of
        Inl e \<Rightarrow> Inl e
      | Inr (vis, r) \<Rightarrow> Inr r)"

definition find_visits :: "('k \<Rightarrow> int \<Rightarrow> int) \<Rightarrow> BloomFilter \<Rightarrow> 'k \<Rightarrow> error + int list" where
  "find_visits H bf key =
     (case find_loop H key (nat (numHashes bf)) 0 ([], bf) of
        Inl e \<Rightarrow> Inl e
      | Inr (vis, r) \<Rightarrow> Inr vis)"

subsection \<open>falsePositiveRate and numBitsSet\<close>

text \<open>
  \<^verbatim>\<open>(float(self.__numBitsSet)/self.__size)**self.__numHashes\<close>: the division raises for
  a zero \<^verbatim>\<open>__size\<close>, and \<^verbatim>\<open>0.0\<close> to a negative power raises as well.
\<close>

definition falsePositiveRate :: "BloomFilter \<Rightarrow> error + real \<times> BloomFilter" where
  "falsePositiveRate bf =
     (if size' bf = 0 then Inl ZeroDivisionError
      else
        let r = real_of_int (numBitsSet' bf) / real_of_int (size' bf) in
        if r = 0 \<and> numHashes bf < 0 then Inl ZeroDivisionError
        else Inr (r powi numHashes bf, bf))"

definition numBitsSet :: "BloomFilter \<Rightarrow> int \<times> BloomFilter" where
  "numBitsSet bf = (numBitsSet' bf, bf)"

subsection \<open>Callers\<close>

text \<open>
  A caller, such as \<^verbatim>\<open>__main\<close>, makes method calls one after the other on the object
  that the constructor returned. \<open>call\<close> is the object after one call and \<open>calls\<close> the
  object after a list of calls; an exception ends the run, since nothing catches it.
\<close>

datatype 'k method_call = Insert 'k | Find 'k | FalsePositiveRate | NumBitsSet

fun call :: "('k \<Rightarrow> int \<Rightarrow> int) \<Rightarrow> BloomFilter \<Rightarrow> 'k method_call \<Rightarrow> error + BloomFilter" where
  "call H bf (Insert key) = insert_bf H bf key"
| "call H bf (Find key) =
     (case find_bf H bf key of Inl e \<Rightarrow> Inl e | Inr (b, bf') \<Rightarrow> Inr bf')"
| "call H bf FalsePositiveRate =
     (case falsePositiveRate bf of Inl e \<Rightarrow> Inl e | Inr (r, bf') \<Rightarrow> Inr bf')"
| "call H bf NumBitsSet = Inr (snd (numBitsSet bf))"

fun calls :: "('k \<Rightarrow> int \<Rightarrow> int) \<Rightarrow> BloomFilter \<Rightarrow> 'k method_call list \<Rightarrow> error + BloomFilter" where
  "calls H bf [] = Inr bf"
| "calls H bf (c # cs) =
     (case call H bf c of Inl e \<Rightarrow> Inl e | Inr bf' \<Rightarrow> calls H bf' cs)"

subsection \<open>The index sequence and the effect of insert, as the spec words them\<close>

text \<open>
  The spec's hash-index derivation: \<open>seed\<^sub>0 = 0\<close>, \<open>h\<^sub>i = hash(key, seed\<^sub>i)\<close>,
  \<open>index\<^sub>i = h\<^sub>i mod capacityBits\<close> and \<open>seed\<^sub>i\<^sub>+\<^sub>1 = h\<^sub>i\<close>. \<open>hashChain\<close> is the list of the raw
  outputs \<open>h\<^sub>i\<close>, \<open>hashIndices\<close> the list of the \<open>hashCount\<close> indices of a key.
\<close>

fun hashChain :: "('k \<Rightarrow> int \<Rightarrow> int) \<Rightarrow> 'k \<Rightarrow> int \<Rightarrow> nat \<Rightarrow> int list" where
  "hashChain H key seed 0 = []"
| "hashChain H key seed (Suc i) = (let h = H key seed in h # hashChain H key h i)"

definition hashIndices :: "('k \<Rightarrow> int \<Rightarrow> int) \<Rightarrow> BloomFilter \<Rightarrow> 'k \<Rightarrow> int list" where
  "hashIndices H bf key =
     map (\<lambda>h. h mod size' bf) (hashChain H key 0 (nat (numHashes bf)))"

text \<open>
  The spec's step of insert at one index: a bit that is 0 is set and counted, a bit that
  is 1 is left alone.
\<close>

definition mark :: "BloomFilter \<Rightarrow> int \<Rightarrow> BloomFilter" where
  "mark bf i =
     (if bv bf ! nat i then bf
      else bf\<lparr>bv := (bv bf)[nat i := True], numBitsSet' := numBitsSet' bf + 1\<rparr>)"

text \<open>
  The part of an index sequence that a scan reads when it stops at the first index whose
  bit is 0: the indices before it, and that index.
\<close>

fun visited_prefix :: "bool list \<Rightarrow> int list \<Rightarrow> int list" where
  "visited_prefix v [] = []"
| "visited_prefix v (i # is) = (if v ! nat i then i # visited_prefix v is else [i])"

text \<open>
  The two facts about an object that every method relies on or maintains: the bit vector
  has \<open>size'\<close> bits, and the counter is the number of bits that are 1.
\<close>

definition sized :: "BloomFilter \<Rightarrow> bool" where
  "sized bf \<longleftrightarrow> size' bf = int (length (bv bf))"

definition counted :: "BloomFilter \<Rightarrow> bool" where
  "counted bf \<longleftrightarrow> numBitsSet' bf = int (length (filter (\<lambda>b. b) (bv bf)))"

text \<open>A concrete hash function and a concrete object, for evaluating the model.\<close>

definition testHash :: "int \<Rightarrow> int \<Rightarrow> int" where
  "testHash key seed = 2 * seed + key"

abbreviation sample :: "bool list \<Rightarrow> int \<Rightarrow> BloomFilter" where
  "sample v c \<equiv>
     \<lparr>size' = 4, bv = v, numKeys = 1, numHashes = 2, maxFalsePositive = 1 / 4,
      numBitsSet' = c\<rparr>"

section \<open>Properties\<close>

subsection \<open>The loops\<close>

lemma getbit_in_range: "0 \<le> i \<Longrightarrow> i < int (length v) \<Longrightarrow> getbit v i = Inr (v ! nat i)"
  by (simp add: getbit_def)

lemma setbit_in_range: "0 \<le> i \<Longrightarrow> i < int (length v) \<Longrightarrow> setbit v i b = Inr (v[nat i := b])"
  by (simp add: setbit_def)

lemma sized_mark: "sized bf \<Longrightarrow> sized (mark bf i)"
  by (simp add: sized_def mark_def)

lemma size_mark: "size' (mark bf i) = size' bf"
  by (simp add: mark_def)

lemma insert_loop_marks:
  "sized bf \<Longrightarrow> 0 < size' bf \<Longrightarrow>
   insert_loop H key n seed (vis, bf) =
     Inr (vis @ map (\<lambda>h. h mod size' bf) (hashChain H key seed n),
          foldl mark bf (map (\<lambda>h. h mod size' bf) (hashChain H key seed n)))"
proof (induction n arbitrary: seed vis bf)
  case 0
  then show ?case by simp
next
  case (Suc n)
  let ?h = "H key seed"
  let ?hv = "?h mod size' bf"
  have r: "0 \<le> ?hv" "?hv < int (length (bv bf))"
    using Suc.prems by (simp_all add: sized_def)
  have m: "sized (mark bf ?hv)" "0 < size' (mark bf ?hv)"
    using Suc.prems by (simp_all add: sized_mark size_mark)
  show ?case
  proof (cases "bv bf ! nat ?hv")
    case True
    then have "mark bf ?hv = bf" by (simp add: mark_def)
    with Suc.IH [OF Suc.prems] True r Suc.prems show ?thesis
      by (simp add: Let_def getbit_in_range)
  next
    case False
    then have e: "mark bf ?hv = bf\<lparr>bv := (bv bf)[nat ?hv := True], numBitsSet' := numBitsSet' bf + 1\<rparr>"
      by (simp add: mark_def)
    from Suc.IH [OF m] False r Suc.prems show ?thesis
      by (simp add: Let_def getbit_in_range setbit_in_range e [symmetric] size_mark)
  qed
qed

lemma find_loop_scans:
  "sized bf \<Longrightarrow> 0 < size' bf \<Longrightarrow>
   find_loop H key n seed (vis, bf) =
     Inr (vis @ visited_prefix (bv bf) (map (\<lambda>h. h mod size' bf) (hashChain H key seed n)),
          list_all (\<lambda>i. bv bf ! nat i) (map (\<lambda>h. h mod size' bf) (hashChain H key seed n)),
          bf)"
proof (induction n arbitrary: seed vis)
  case 0
  then show ?case by simp
next
  case (Suc n)
  let ?hv = "H key seed mod size' bf"
  have r: "0 \<le> ?hv" "?hv < int (length (bv bf))"
    using Suc.prems by (simp_all add: sized_def)
  from Suc.IH [OF Suc.prems] r Suc.prems show ?case
    by (simp add: Let_def getbit_in_range)
qed

lemma hashChain_length: "length (hashChain H key seed n) = n"
  by (induction n arbitrary: seed) (simp_all add: Let_def)

lemma mark_set: "bv bf ! nat i \<Longrightarrow> mark bf i = bf"
  by (simp add: mark_def)

lemma foldl_mark_set: "list_all (\<lambda>i. bv bf ! nat i) is \<Longrightarrow> foldl mark bf is = bf"
  by (induction "is") (simp_all add: mark_set)

lemma length_bv_mark: "length (bv (mark bf i)) = length (bv bf)"
  by (simp add: mark_def)

lemma bv_mark_nth:
  "0 \<le> i \<Longrightarrow> i < int (length (bv bf)) \<Longrightarrow> j < length (bv bf) \<Longrightarrow>
   bv (mark bf i) ! j = (bv bf ! j \<or> j = nat i)"
  by (auto simp: mark_def nth_list_update)

lemma foldl_mark_fields:
  "size' (foldl mark bf is) = size' bf \<and> numHashes (foldl mark bf is) = numHashes bf
   \<and> numKeys (foldl mark bf is) = numKeys bf
   \<and> maxFalsePositive (foldl mark bf is) = maxFalsePositive bf
   \<and> length (bv (foldl mark bf is)) = length (bv bf)"
  by (induction "is" arbitrary: bf) (simp_all add: mark_def)

lemma bv_foldl_mark_nth:
  "\<forall>i \<in> set is. 0 \<le> i \<and> i < int (length (bv bf)) \<Longrightarrow> j < length (bv bf) \<Longrightarrow>
   bv (foldl mark bf is) ! j = (bv bf ! j \<or> int j \<in> set is)"
proof (induction "is" arbitrary: bf)
  case Nil
  then show ?case by simp
next
  case (Cons i "is")
  have "bv (foldl mark (mark bf i) is) ! j = (bv (mark bf i) ! j \<or> int j \<in> set is)"
    using Cons.prems by (intro Cons.IH) (simp_all add: length_bv_mark)
  moreover have "bv (mark bf i) ! j = (bv bf ! j \<or> j = nat i)"
    using Cons.prems by (intro bv_mark_nth) simp_all
  ultimately show ?case using Cons.prems by auto
qed

lemma filter_update_True:
  "i < length v \<Longrightarrow> \<not> v ! i \<Longrightarrow>
   length (filter (\<lambda>b. b) (v[i := True])) = Suc (length (filter (\<lambda>b. b) v))"
proof (induction v arbitrary: i)
  case Nil
  then show ?case by simp
next
  case (Cons b v)
  then show ?case by (cases i) simp_all
qed

lemma counted_mark:
  "0 \<le> i \<Longrightarrow> i < int (length (bv bf)) \<Longrightarrow> counted bf \<Longrightarrow> counted (mark bf i)"
  by (simp add: counted_def mark_def filter_update_True)

lemma counted_foldl_mark:
  "\<forall>i \<in> set is. 0 \<le> i \<and> i < int (length (bv bf)) \<Longrightarrow> counted bf \<Longrightarrow>
   counted (foldl mark bf is)"
proof (induction "is" arbitrary: bf)
  case Nil
  then show ?case by simp
next
  case (Cons i "is")
  then show ?case by (simp add: counted_mark length_bv_mark)
qed

lemma sized_foldl_mark: "sized bf \<Longrightarrow> sized (foldl mark bf is)"
  by (simp add: sized_def foldl_mark_fields)

lemma hashIndices_range:
  "0 < size' bf \<Longrightarrow> \<forall>i \<in> set (hashIndices H bf key). 0 \<le> i \<and> i < size' bf"
  by (simp add: hashIndices_def)

lemma hashIndices_in_bv:
  "sized bf \<Longrightarrow> \<not> (size' bf = 0 \<and> 0 < numHashes bf) \<Longrightarrow>
   \<forall>i \<in> set (hashIndices H bf key). 0 \<le> i \<and> i < int (length (bv bf))"
proof (cases "0 < size' bf")
  case True
  assume "sized bf"
  with hashIndices_range [OF True, of H key] show ?thesis by (simp add: sized_def)
next
  case False
  assume "sized bf" and "\<not> (size' bf = 0 \<and> 0 < numHashes bf)"
  with False have "nat (numHashes bf) = 0" by (simp add: sized_def)
  then show ?thesis by (simp add: hashIndices_def)
qed

lemma insert_bf_eq:
  "sized bf \<Longrightarrow>
   insert_bf H bf key =
     (if size' bf = 0 \<and> 0 < numHashes bf then Inl ZeroDivisionError
      else Inr (foldl mark bf (hashIndices H bf key)))"
proof (cases "0 < size' bf")
  case True
  assume "sized bf"
  with True show ?thesis
    by (simp add: insert_bf_def hashIndices_def insert_loop_marks)
next
  case False
  assume s: "sized bf"
  with False have z: "size' bf = 0" by (simp add: sized_def)
  show ?thesis
  proof (cases "0 < numHashes bf")
    case True
    then obtain m where "nat (numHashes bf) = Suc m" by (cases "nat (numHashes bf)") auto
    with z True show ?thesis by (simp add: insert_bf_def)
  next
    case False
    then show ?thesis by (simp add: insert_bf_def hashIndices_def)
  qed
qed

lemma find_bf_eq:
  "sized bf \<Longrightarrow>
   find_bf H bf key =
     (if size' bf = 0 \<and> 0 < numHashes bf then Inl ZeroDivisionError
      else Inr (list_all (\<lambda>i. bv bf ! nat i) (hashIndices H bf key), bf))"
proof (cases "0 < size' bf")
  case True
  assume "sized bf"
  with True show ?thesis
    by (simp add: find_bf_def hashIndices_def find_loop_scans)
next
  case False
  assume s: "sized bf"
  with False have z: "size' bf = 0" by (simp add: sized_def)
  show ?thesis
  proof (cases "0 < numHashes bf")
    case True
    then obtain m where "nat (numHashes bf) = Suc m" by (cases "nat (numHashes bf)") auto
    with z True show ?thesis by (simp add: find_bf_def)
  next
    case False
    then show ?thesis by (simp add: find_bf_def hashIndices_def)
  qed
qed

lemma init_state:
  assumes "BloomFilter_init n k p = Inr bf"
  shows "sized bf" and "counted bf" and "numHashes bf = k" and "numBitsSet' bf = 0"
    and "bv bf = replicate (nat (size' bf)) False"
proof -
  from assms obtain sz where
    b: "0 \<le> sz"
    and e: "bf = \<lparr>size' = sz, bv = replicate (nat sz) False, numKeys = n, numHashes = k,
                 maxFalsePositive = p, numBitsSet' = 0\<rparr>"
    by (auto simp: BloomFilter_init_def BitVector_def split: sum.splits if_splits)
  show "sized bf" using b e by (simp add: sized_def)
  show "counted bf" using e by (simp add: counted_def)
  show "numHashes bf = k" using e by simp
  show "numBitsSet' bf = 0" using e by simp
  show "bv bf = replicate (nat (size' bf)) False" using e by simp
qed

lemma hashIndices_cong:
  "size' bf' = size' bf \<Longrightarrow> numHashes bf' = numHashes bf \<Longrightarrow>
   hashIndices H bf' key = hashIndices H bf key"
  by (simp add: hashIndices_def)

lemma insert_bf_keeps:
  assumes "sized bf" and "insert_bf H bf key = Inr bf'"
  shows "sized bf'" and "size' bf' = size' bf" and "numHashes bf' = numHashes bf"
    and "counted bf \<Longrightarrow> counted bf'"
    and "j < length (bv bf) \<Longrightarrow> bv bf ! j \<Longrightarrow> bv bf' ! j"
    and "list_all (\<lambda>i. bv bf' ! nat i) (hashIndices H bf key)"
proof -
  from assms have e: "bf' = foldl mark bf (hashIndices H bf key)"
    and c: "\<not> (size' bf = 0 \<and> 0 < numHashes bf)"
    by (simp_all add: insert_bf_eq split: if_splits)
  note r = hashIndices_in_bv [OF assms(1) c, of H key]
  show "sized bf'" using assms(1) e by (simp add: sized_foldl_mark)
  show "size' bf' = size' bf" using e by (simp add: foldl_mark_fields)
  show "numHashes bf' = numHashes bf" using e by (simp add: foldl_mark_fields)
  show "counted bf \<Longrightarrow> counted bf'" using e r by (simp add: counted_foldl_mark)
  show "j < length (bv bf) \<Longrightarrow> bv bf ! j \<Longrightarrow> bv bf' ! j"
    using e r by (simp add: bv_foldl_mark_nth)
  have "bv bf' ! nat i" if "i \<in> set (hashIndices H bf key)" for i
  proof -
    from r that have "0 \<le> i" "nat i < length (bv bf)" by auto
    with that show ?thesis using e r by (simp add: bv_foldl_mark_nth)
  qed
  then show "list_all (\<lambda>i. bv bf' ! nat i) (hashIndices H bf key)"
    by (simp add: list_all_iff)
qed

lemma call_cases:
  assumes "sized bf" and "call H bf c = Inr bf'"
  obtains key where "c = Insert key" and "insert_bf H bf key = Inr bf'" | "bf' = bf"
proof (cases c)
  case (Insert key)
  with assms(2) that(1) show ?thesis by simp
next
  case (Find key)
  with assms that(2) show ?thesis by (simp add: find_bf_eq split: if_splits)
next
  case FalsePositiveRate
  with assms(2) that(2) show ?thesis
    by (simp add: falsePositiveRate_def Let_def split: if_splits)
next
  case NumBitsSet
  with assms(2) that(2) show ?thesis by (simp add: numBitsSet_def)
qed

lemma call_keeps:
  assumes "sized bf" and "call H bf c = Inr bf'"
  shows "sized bf'" and "size' bf' = size' bf" and "numHashes bf' = numHashes bf"
    and "counted bf \<Longrightarrow> counted bf'"
    and "j < length (bv bf) \<Longrightarrow> bv bf ! j \<Longrightarrow> bv bf' ! j"
  using assms by (rule call_cases; simp add: insert_bf_keeps)+

lemma calls_keeps:
  "sized bf \<Longrightarrow> calls H bf cs = Inr bf' \<Longrightarrow>
   sized bf' \<and> size' bf' = size' bf \<and> numHashes bf' = numHashes bf
   \<and> (counted bf \<longrightarrow> counted bf')
   \<and> (\<forall>j < length (bv bf). bv bf ! j \<longrightarrow> bv bf' ! j)"
proof (induction cs arbitrary: bf)
  case Nil
  then show ?case by simp
next
  case (Cons c cs)
  from Cons.prems(2) obtain bf1 where
    i: "call H bf c = Inr bf1" and r: "calls H bf1 cs = Inr bf'"
    by (auto split: sum.splits)
  note k = call_keeps [OF Cons.prems(1) i]
  have l: "length (bv bf1) = length (bv bf)"
    using k(1,2) Cons.prems(1) by (simp add: sized_def)
  note ih = Cons.IH [OF k(1) r]
  have "sized bf'" using ih by simp
  moreover have "size' bf' = size' bf" using ih k(2) by simp
  moreover have "numHashes bf' = numHashes bf" using ih k(3) by simp
  moreover have "counted bf \<longrightarrow> counted bf'" using ih k(4) by simp
  moreover have "\<forall>j < length (bv bf). bv bf ! j \<longrightarrow> bv bf' ! j"
    using ih k(5) l by simp
  ultimately show ?case by simp
qed

lemma still_set:
  assumes "sized bf" and "list_all (\<lambda>i. bv bf ! nat i) (hashIndices H bf key)"
    and "\<not> (size' bf = 0 \<and> 0 < numHashes bf)"
    and "calls H bf cs = Inr bf'"
  shows "list_all (\<lambda>i. bv bf' ! nat i) (hashIndices H bf' key)"
proof -
  note k = calls_keeps [OF assms(1,4)]
  note r = hashIndices_in_bv [OF assms(1,3), of H key]
  have h: "hashIndices H bf' key = hashIndices H bf key"
    using k by (intro hashIndices_cong) simp_all
  have "bv bf' ! nat i" if "i \<in> set (hashIndices H bf key)" for i
  proof -
    from r that have "nat i < length (bv bf)" by auto
    moreover from assms(2) that have "bv bf ! nat i" by (simp add: list_all_iff)
    ultimately show ?thesis using k by simp
  qed
  then show ?thesis by (simp add: h list_all_iff)
qed

lemma reached:
  assumes "BloomFilter_init n k p = Inr bf0" and "calls H bf0 cs = Inr bf"
  shows "sized bf" and "counted bf" and "numHashes bf = k" and "size' bf = size' bf0"
proof -
  note i = init_state [OF assms(1)]
  note c = calls_keeps [OF i(1) assms(2)]
  show "sized bf" using c by simp
  show "counted bf" using c i(2) by simp
  show "numHashes bf = k" using c i(3) by simp
  show "size' bf = size' bf0" using c by simp
qed

lemma insert_visits_eq:
  "sized bf \<Longrightarrow>
   insert_visits H bf key =
     (if size' bf = 0 \<and> 0 < numHashes bf then Inl ZeroDivisionError
      else Inr (hashIndices H bf key))"
proof (cases "0 < size' bf")
  case True
  assume "sized bf"
  with True show ?thesis
    by (simp add: insert_visits_def hashIndices_def insert_loop_marks)
next
  case False
  assume s: "sized bf"
  with False have z: "size' bf = 0" by (simp add: sized_def)
  show ?thesis
  proof (cases "0 < numHashes bf")
    case True
    then obtain m where "nat (numHashes bf) = Suc m" by (cases "nat (numHashes bf)") auto
    with z True show ?thesis by (simp add: insert_visits_def)
  next
    case False
    then show ?thesis by (simp add: insert_visits_def hashIndices_def)
  qed
qed

lemma find_visits_eq:
  "sized bf \<Longrightarrow>
   find_visits H bf key =
     (if size' bf = 0 \<and> 0 < numHashes bf then Inl ZeroDivisionError
      else Inr (visited_prefix (bv bf) (hashIndices H bf key)))"
proof (cases "0 < size' bf")
  case True
  assume "sized bf"
  with True show ?thesis
    by (simp add: find_visits_def hashIndices_def find_loop_scans)
next
  case False
  assume s: "sized bf"
  with False have z: "size' bf = 0" by (simp add: sized_def)
  show ?thesis
  proof (cases "0 < numHashes bf")
    case True
    then obtain m where "nat (numHashes bf) = Suc m" by (cases "nat (numHashes bf)") auto
    with z True show ?thesis by (simp add: find_visits_def)
  next
    case False
    then show ?thesis by (simp add: find_visits_def hashIndices_def)
  qed
qed

lemma visited_prefix_all: "list_all (\<lambda>i. v ! nat i) is \<Longrightarrow> visited_prefix v is = is"
  by (induction "is") simp_all

lemma visited_prefix_prefix: "prefix (visited_prefix v is) is"
  by (induction "is") simp_all

lemma hashChain_nth_Suc:
  "Suc i < m \<Longrightarrow> hashChain H key seed m ! Suc i = H key (hashChain H key seed m ! i)"
proof (induction m arbitrary: seed i)
  case 0
  then show ?case by simp
next
  case (Suc m)
  show ?case
  proof (cases i)
    case 0
    with Suc.prems obtain m' where "m = Suc m'" by (cases m) auto
    with 0 show ?thesis by (simp add: Let_def)
  next
    case (Suc j)
    with Suc.prems have "Suc j < m" by simp
    from Suc.IH [OF this] Suc show ?thesis by (simp add: Let_def)
  qed
qed

lemma hashChain_nth_0: "0 < m \<Longrightarrow> hashChain H key seed m ! 0 = H key seed"
  by (cases m) (simp_all add: Let_def)

subsection \<open>Evaluation at the sample object\<close>

lemma floor_minus_one_real: "\<lfloor>- 1 :: real\<rfloor> = - 1"
  by (rule floor_unique) simp_all

lemma quarter_powr_half: "(1 / 4) powr (1 / 2) = (1 / 2 :: real)"
  by (simp add: powr_half_sqrt real_sqrt_divide)

lemma init_1_2_quarter:
  "BloomFilter_init 1 2 (1 / 4) =
     Inr (sample [False, False, False, False] 0)"
  by (simp add: BloomFilter_init_def bitsNeeded_def py_pow_def pow_num_def sub_num_def
      div_num_def int_num_def BitVector_def quarter_powr_half eval_nat_numeral)

lemma sample_calls_2:
  "calls testHash (sample [False, False, False, False] 0) [Insert 2, Find 1] =
     Inr (sample [False, False, True, False] 1)"
  by (simp add: insert_bf_def find_bf_def numBitsSet_def testHash_def getbit_def setbit_def
      eval_nat_numeral)

lemma sample_insert_1:
  "insert_bf testHash (sample [False, False, True, False] 1) 1 =
     Inr (sample [False, True, True, True] 3)"
  by (simp add: insert_bf_def find_bf_def numBitsSet_def testHash_def getbit_def setbit_def
      eval_nat_numeral)

lemma sample_calls_0_3:
  "calls testHash (sample [False, True, True, True] 3) [Insert 0, NumBitsSet, Insert 3] =
     Inr (sample [True, True, True, True] 4)"
  by (simp add: insert_bf_def find_bf_def numBitsSet_def testHash_def getbit_def setbit_def
      eval_nat_numeral)

lemma sample_find_3:
  "find_bf testHash (sample [False, True, True, True] 3) 3 =
     Inr (True, sample [False, True, True, True] 3)"
  by (simp add: find_bf_def testHash_def getbit_def eval_nat_numeral)

lemma sample_calls_2_1:
  "calls testHash (sample [False, False, False, False] 0) [Insert 2, Insert 1] =
     Inr (sample [False, True, True, True] 3)"
  by (simp add: insert_bf_def testHash_def getbit_def setbit_def eval_nat_numeral)

lemma sample_indices_3: "hashIndices testHash (sample v c) 3 = [3, 1]"
  by (simp add: hashIndices_def testHash_def eval_nat_numeral)

lemma sample_indices_0: "hashIndices testHash (sample v c) 0 = [0, 0]"
  by (simp add: hashIndices_def testHash_def eval_nat_numeral)

lemma init_1_1_3:
  "BloomFilter_init 1 1 3 =
     Inr \<lparr>size' = 0, bv = [], numKeys = 1, numHashes = 1, maxFalsePositive = 3,
          numBitsSet' = 0\<rparr>"
  by (simp add: BloomFilter_init_def bitsNeeded_def py_pow_def pow_num_def sub_num_def
      div_num_def int_num_def BitVector_def)

lemma quarter_powr_minus_one: "(1 / 4) powr (- 1) = (4 :: real)"
  by (simp add: powr_minus)

lemma init_minus1_1:
  "BloomFilter_init (- 1) 1 (3 / 4) =
     Inr \<lparr>size' = 0, bv = [], numKeys = - 1, numHashes = 1, maxFalsePositive = 3 / 4,
          numBitsSet' = 0\<rparr>"
  by (simp add: BloomFilter_init_def bitsNeeded_def py_pow_def pow_num_def sub_num_def
      div_num_def int_num_def BitVector_def quarter_powr_minus_one ceiling_eq_iff)

lemma init_1_minus1_minus2:
  "BloomFilter_init 1 (- 1) (- 2) =
     Inr \<lparr>size' = 2, bv = [False, False], numKeys = 1, numHashes = - 1,
          maxFalsePositive = - 2, numBitsSet' = 0\<rparr>"
  by (simp add: BloomFilter_init_def bitsNeeded_def py_pow_def pow_num_def sub_num_def
      div_num_def int_num_def BitVector_def power_int_def floor_minus_one_real
      eval_nat_numeral)

section \<open>The claims\<close>

text \<open>
  In what follows \<open>bf0\<close> is an object returned by the constructor and \<open>bf\<close> the object
  after any list of calls on it that returned; \<open>H\<close> is any hash function.
\<close>

text \<open>
  C1. No false negatives: on every constructed filter, whatever was called before, once
  \<open>insert(x)\<close> has returned, \<open>find(x)\<close> returns true, and it still returns true after any
  further calls, inserts of other keys among them.
\<close>

theorem no_false_negatives:
  assumes "BloomFilter_init n k p = Inr bf0"
    and "calls H bf0 before = Inr bf1"
    and "insert_bf H bf1 x = Inr bf2"
    and "calls H bf2 after = Inr bf3"
  shows "find_bf H bf3 x = Inr (True, bf3)"
proof -
  note r1 = reached [OF assms(1,2)]
  note k = insert_bf_keeps [OF r1(1) assms(3)]
  from assms(3) r1(1) have c1: "\<not> (size' bf1 = 0 \<and> 0 < numHashes bf1)"
    by (simp add: insert_bf_eq split: if_splits)
  then have c2: "\<not> (size' bf2 = 0 \<and> 0 < numHashes bf2)"
    using k(2,3) by simp
  have "hashIndices H bf2 x = hashIndices H bf1 x"
    using k(2,3) by (intro hashIndices_cong) simp_all
  with k(6) have a2: "list_all (\<lambda>i. bv bf2 ! nat i) (hashIndices H bf2 x)" by simp
  note a3 = still_set [OF k(1) a2 c2 assms(4)]
  note k3 = calls_keeps [OF k(1) assms(4)]
  have "\<not> (size' bf3 = 0 \<and> 0 < numHashes bf3)" using c2 k3 by simp
  moreover have "sized bf3" using k3 by simp
  ultimately show ?thesis using a3 by (simp add: find_bf_eq)
qed

theorem no_false_negatives_witness:
  "BloomFilter_init 1 2 (1 / 4) = Inr (sample [False, False, False, False] 0)
   \<and> calls testHash (sample [False, False, False, False] 0) [Insert 2, Find 1] =
       Inr (sample [False, False, True, False] 1)
   \<and> insert_bf testHash (sample [False, False, True, False] 1) 1 =
       Inr (sample [False, True, True, True] 3)
   \<and> calls testHash (sample [False, True, True, True] 3) [Insert 0, NumBitsSet, Insert 3] =
       Inr (sample [True, True, True, True] 4)
   \<and> find_bf testHash (sample [True, True, True, True] 4) 1 =
       Inr (True, sample [True, True, True, True] 4)"
  using no_false_negatives
    [OF init_1_2_quarter sample_calls_2 sample_insert_1 sample_calls_0_3]
    init_1_2_quarter sample_calls_2 sample_insert_1 sample_calls_0_3
  by simp

text \<open>
  C2, as the source has it. The claim says that insert and find each derive exactly
  \<open>hashCount\<close> indices and visit the identical sequence. \<open>find\<close> returns at the first
  index whose bit is 0, so on the fresh filter \<^verbatim>\<open>BloomFilter(1, 2, 0.25)\<close> it looks at one
  index where \<open>insert\<close> looks at two.
\<close>

theorem find_stops_early:
  "BloomFilter_init 1 2 (1 / 4) = Inr (sample [False, False, False, False] 0)
   \<and> insert_visits testHash (sample [False, False, False, False] 0) 1 = Inr [1, 3]
   \<and> find_visits testHash (sample [False, False, False, False] 0) 1 = Inr [1]
   \<and> find_visits testHash (sample [False, False, False, False] 0) 1 \<noteq>
       insert_visits testHash (sample [False, False, False, False] 0) 1"
  using init_1_2_quarter
  by (simp add: insert_visits_def find_visits_def testHash_def getbit_def setbit_def
      eval_nat_numeral)

text \<open>
  C2, amended. Where the calls return, \<open>insert\<close> visits exactly the \<open>hashCount\<close> indices
  of the chained-seed sequence: the first hash call has seed 0, each index is the hash
  output modulo \<open>capacityBits\<close>, and each later call has the raw output of the call before
  it as its seed. \<open>find\<close> derives its indices in the same way and visits the same
  sequence up to and including the first index whose bit is 0: a prefix of what \<open>insert\<close>
  visits, and all of it when \<open>find\<close> returns true.
\<close>

theorem index_sequences:
  assumes "BloomFilter_init n k p = Inr bf0" and "calls H bf0 cs = Inr bf"
  shows "insert_visits H bf key =
       (if size' bf = 0 \<and> 0 < numHashes bf then Inl ZeroDivisionError
        else Inr (hashIndices H bf key))
     \<and> find_visits H bf key =
       (if size' bf = 0 \<and> 0 < numHashes bf then Inl ZeroDivisionError
        else Inr (visited_prefix (bv bf) (hashIndices H bf key)))
     \<and> prefix (visited_prefix (bv bf) (hashIndices H bf key)) (hashIndices H bf key)
     \<and> (find_bf H bf key = Inr (True, bf) \<longrightarrow>
          find_visits H bf key = insert_visits H bf key)
     \<and> length (hashIndices H bf key) = nat (numHashes bf)
     \<and> (\<forall>i < nat (numHashes bf).
          hashIndices H bf key ! i = hashChain H key 0 (nat (numHashes bf)) ! i mod size' bf)
     \<and> (0 < numHashes bf \<longrightarrow> hashChain H key 0 (nat (numHashes bf)) ! 0 = H key 0)
     \<and> (\<forall>i. Suc i < nat (numHashes bf) \<longrightarrow>
          hashChain H key 0 (nat (numHashes bf)) ! Suc i =
            H key (hashChain H key 0 (nat (numHashes bf)) ! i))"
proof -
  note s = reached(1) [OF assms]
  have a: "insert_visits H bf key =
       (if size' bf = 0 \<and> 0 < numHashes bf then Inl ZeroDivisionError
        else Inr (hashIndices H bf key))"
    using s by (rule insert_visits_eq)
  have b: "find_visits H bf key =
       (if size' bf = 0 \<and> 0 < numHashes bf then Inl ZeroDivisionError
        else Inr (visited_prefix (bv bf) (hashIndices H bf key)))"
    using s by (rule find_visits_eq)
  have c: "prefix (visited_prefix (bv bf) (hashIndices H bf key)) (hashIndices H bf key)"
    by (rule visited_prefix_prefix)
  have d: "find_bf H bf key = Inr (True, bf) \<longrightarrow>
          find_visits H bf key = insert_visits H bf key"
    using s by (simp add: find_bf_eq insert_visits_eq find_visits_eq visited_prefix_all)
  have e: "length (hashIndices H bf key) = nat (numHashes bf)"
    by (simp add: hashIndices_def hashChain_length)
  have f: "\<forall>i < nat (numHashes bf).
          hashIndices H bf key ! i = hashChain H key 0 (nat (numHashes bf)) ! i mod size' bf"
    by (simp add: hashIndices_def hashChain_length)
  have g: "0 < numHashes bf \<longrightarrow> hashChain H key 0 (nat (numHashes bf)) ! 0 = H key 0"
    by (simp add: hashChain_nth_0)
  have h: "\<forall>i. Suc i < nat (numHashes bf) \<longrightarrow>
          hashChain H key 0 (nat (numHashes bf)) ! Suc i =
            H key (hashChain H key 0 (nat (numHashes bf)) ! i)"
    by (simp add: hashChain_nth_Suc)
  from a b c d e f g h show ?thesis by blast
qed

theorem index_sequences_witness:
  "BloomFilter_init 1 2 (1 / 4) = Inr (sample [False, False, False, False] 0)
   \<and> calls testHash (sample [False, False, False, False] 0) [Insert 2, Insert 1] =
       Inr (sample [False, True, True, True] 3)
   \<and> insert_visits testHash (sample [False, True, True, True] 3) 0 = Inr [0, 0]
   \<and> find_visits testHash (sample [False, True, True, True] 3) 0 = Inr [0]
   \<and> insert_visits testHash (sample [False, True, True, True] 3) 3 = Inr [3, 1]
   \<and> find_visits testHash (sample [False, True, True, True] 3) 3 = Inr [3, 1]
   \<and> find_bf testHash (sample [False, True, True, True] 3) 3 =
       Inr (True, sample [False, True, True, True] 3)"
  using index_sequences [OF init_1_2_quarter sample_calls_2_1, of 0]
    index_sequences [OF init_1_2_quarter sample_calls_2_1, of 3]
    init_1_2_quarter sample_calls_2_1 sample_find_3
  by (simp add: sample_indices_0 sample_indices_3)

text \<open>
  C4, as the source has it. The claim says that construction with a non-positive
  \<open>expectedKeys\<close> or \<open>hashCount\<close>, with a \<open>targetFalsePositiveRate\<close> outside \<open>(0, 1)\<close>, 1.0
  in particular, or with a computed capacity below 1 fails with an InvalidParameters
  error. The constructor checks nothing: \<^verbatim>\<open>BloomFilter(1, 1, 1.0)\<close> returns an object
  with one bit, \<^verbatim>\<open>BloomFilter(1, 1, 3.0)\<close> and \<^verbatim>\<open>BloomFilter(-1, 1, 0.75)\<close> return objects
  with no bits, and \<^verbatim>\<open>BloomFilter(1, -1, -2.0)\<close> returns one with two bits.
\<close>

theorem init_accepts_invalid:
  "BloomFilter_init 1 1 1 =
     Inr \<lparr>size' = 1, bv = [False], numKeys = 1, numHashes = 1, maxFalsePositive = 1,
          numBitsSet' = 0\<rparr>
   \<and> BloomFilter_init 1 1 3 =
     Inr \<lparr>size' = 0, bv = [], numKeys = 1, numHashes = 1, maxFalsePositive = 3,
          numBitsSet' = 0\<rparr>
   \<and> BloomFilter_init (- 1) 1 (3 / 4) =
     Inr \<lparr>size' = 0, bv = [], numKeys = - 1, numHashes = 1, maxFalsePositive = 3 / 4,
          numBitsSet' = 0\<rparr>
   \<and> BloomFilter_init 1 (- 1) (- 2) =
     Inr \<lparr>size' = 2, bv = [False, False], numKeys = 1, numHashes = - 1,
          maxFalsePositive = - 2, numBitsSet' = 0\<rparr>"
  using init_1_1_3 init_minus1_1 init_1_minus1_minus2
  by (simp add: BloomFilter_init_def bitsNeeded_def py_pow_def pow_num_def sub_num_def
      div_num_def int_num_def BitVector_def)

text \<open>
  C4, amended. The constructor validates nothing and has no InvalidParameters error. With
  \<open>expectedKeys = 0\<close> or with \<open>hashCount = 0\<close> it fails and returns no object: the sizing
  arithmetic raises \<^verbatim>\<open>ZeroDivisionError\<close>. With \<open>targetFalsePositiveRate = 1.0\<close> and
  positive \<open>expectedKeys\<close> and \<open>hashCount\<close> it succeeds, with \<open>capacityBits = hashCount\<close>.
  A negative \<open>expectedKeys\<close> or \<open>hashCount\<close>, a rate above 1 and a computed capacity of 0
  are not rejected as such.
\<close>

theorem init_unchecked:
  "(\<forall>k p. BloomFilter_init 0 k p = Inl ZeroDivisionError)
   \<and> (\<forall>n p. BloomFilter_init n 0 p = Inl ZeroDivisionError)
   \<and> (\<forall>n k. 0 < n \<longrightarrow> 0 < k \<longrightarrow>
        BloomFilter_init n k 1 =
          Inr \<lparr>size' = k, bv = replicate (nat k) False, numKeys = n, numHashes = k,
               maxFalsePositive = 1, numBitsSet' = 0\<rparr>)
   \<and> (\<exists>n k p bf. n < 0 \<and> BloomFilter_init n k p = Inr bf)
   \<and> (\<exists>n k p bf. k < 0 \<and> BloomFilter_init n k p = Inr bf)
   \<and> (\<exists>n k p bf. 1 < p \<and> BloomFilter_init n k p = Inr bf \<and> size' bf = 0)"
proof -
  have a: "BloomFilter_init 0 k p = Inl ZeroDivisionError" for k p
    by (simp add: BloomFilter_init_def bitsNeeded_def Let_def split: sum.splits)
      (auto simp: py_pow_def split: if_splits)
  have b: "BloomFilter_init n 0 p = Inl ZeroDivisionError" for n p
    by (simp add: BloomFilter_init_def bitsNeeded_def)
  have c: "BloomFilter_init n k 1 =
          Inr \<lparr>size' = k, bv = replicate (nat k) False, numKeys = n, numHashes = k,
               maxFalsePositive = 1, numBitsSet' = 0\<rparr>" if "0 < n" "0 < k" for n k
    using that
    by (simp add: BloomFilter_init_def bitsNeeded_def py_pow_def pow_num_def sub_num_def
        div_num_def int_num_def BitVector_def)
  have d: "\<exists>n k p bf. n < 0 \<and> BloomFilter_init n k p = Inr bf"
    using init_minus1_1 by (intro exI [of _ "- 1"] exI [of _ 1] exI [of _ "3 / 4"]) simp
  have e: "\<exists>n k p bf. k < 0 \<and> BloomFilter_init n k p = Inr bf"
    using init_1_minus1_minus2 by (intro exI [of _ 1] exI [of _ "- 1"] exI [of _ "- 2"]) simp
  have f: "\<exists>n k p bf. 1 < p \<and> BloomFilter_init n k p = Inr bf \<and> size' bf = 0"
    using init_1_1_3 by (intro exI [of _ 1] exI [of _ 1] exI [of _ 3]) simp
  from a b c d e f show ?thesis by blast
qed

theorem init_unchecked_witness:
  "BloomFilter_init 0 4 (1 / 20) = Inl ZeroDivisionError
   \<and> BloomFilter_init 100000 0 (1 / 20) = Inl ZeroDivisionError
   \<and> (0::int) < 3 \<and> (0::int) < 2
   \<and> BloomFilter_init 3 2 1 =
       Inr \<lparr>size' = 2, bv = [False, False], numKeys = 3, numHashes = 2,
            maxFalsePositive = 1, numBitsSet' = 0\<rparr>"
proof -
  from init_unchecked have
    a: "BloomFilter_init 0 4 (1 / 20) = Inl ZeroDivisionError"
    and b: "BloomFilter_init 100000 0 (1 / 20) = Inl ZeroDivisionError"
    and c: "(0::int) < 3 \<longrightarrow> (0::int) < 2 \<longrightarrow>
        BloomFilter_init 3 2 1 =
          Inr \<lparr>size' = 2, bv = replicate (nat 2) False, numKeys = 3, numHashes = 2,
               maxFalsePositive = 1, numBitsSet' = 0\<rparr>"
    by blast+
  from a b c show ?thesis by (simp add: eval_nat_numeral)
qed

text \<open>
  C5, as the source has it. The claim says that insert and find never raise on any
  constructed filter. \<^verbatim>\<open>BloomFilter(1, 1, 3.0)\<close> is constructed, with no bits at all, and
  on it \<^verbatim>\<open>h % self.__size\<close> divides by zero in both methods.
\<close>

theorem insert_find_raise:
  "BloomFilter_init 1 1 3 =
     Inr \<lparr>size' = 0, bv = [], numKeys = 1, numHashes = 1, maxFalsePositive = 3,
          numBitsSet' = 0\<rparr>
   \<and> insert_bf testHash
       \<lparr>size' = 0, bv = [], numKeys = 1, numHashes = 1, maxFalsePositive = 3,
        numBitsSet' = 0\<rparr> 0 = Inl ZeroDivisionError
   \<and> find_bf testHash
       \<lparr>size' = 0, bv = [], numKeys = 1, numHashes = 1, maxFalsePositive = 3,
        numBitsSet' = 0\<rparr> 0 = Inl ZeroDivisionError"
  using init_1_1_3 by (simp add: insert_bf_def find_bf_def)

text \<open>
  C5, amended. On every constructed filter whose \<open>capacityBits\<close> is at least 1, insert
  and find return for every key, without an error, and every index at which they read or
  write the bit vector is in \<open>[0, capacityBits)\<close>.
\<close>

theorem insert_find_total:
  assumes "BloomFilter_init n k p = Inr bf0" and "calls H bf0 cs = Inr bf"
    and "1 \<le> size' bf"
  shows "(\<exists>bf'. insert_bf H bf key = Inr bf')
     \<and> (\<exists>b. find_bf H bf key = Inr (b, bf))
     \<and> (\<exists>vs. insert_visits H bf key = Inr vs \<and> (\<forall>i \<in> set vs. 0 \<le> i \<and> i < size' bf))
     \<and> (\<exists>vs. find_visits H bf key = Inr vs \<and> (\<forall>i \<in> set vs. 0 \<le> i \<and> i < size' bf))"
proof -
  note s = reached(1) [OF assms(1,2)]
  have pos: "0 < size' bf" using assms(3) by simp
  note r = hashIndices_range [OF pos, of H key]
  have a: "\<exists>bf'. insert_bf H bf key = Inr bf'"
    using s pos by (simp add: insert_bf_eq)
  have b: "\<exists>b. find_bf H bf key = Inr (b, bf)"
    using s pos by (simp add: find_bf_eq)
  have c: "\<exists>vs. insert_visits H bf key = Inr vs \<and> (\<forall>i \<in> set vs. 0 \<le> i \<and> i < size' bf)"
    using s pos r by (simp add: insert_visits_eq)
  have "set (visited_prefix (bv bf) (hashIndices H bf key)) \<subseteq> set (hashIndices H bf key)"
    using visited_prefix_prefix by (rule set_mono_prefix)
  with r have "\<forall>i \<in> set (visited_prefix (bv bf) (hashIndices H bf key)). 0 \<le> i \<and> i < size' bf"
    by blast
  then have d: "\<exists>vs. find_visits H bf key = Inr vs \<and> (\<forall>i \<in> set vs. 0 \<le> i \<and> i < size' bf)"
    using s pos by (simp add: find_visits_eq)
  from a b c d show ?thesis by blast
qed

theorem insert_find_total_witness:
  "BloomFilter_init 1 2 (1 / 4) = Inr (sample [False, False, False, False] 0)
   \<and> calls testHash (sample [False, False, False, False] 0) [Insert 2, Insert 1] =
       Inr (sample [False, True, True, True] 3)
   \<and> 1 \<le> size' (sample [False, True, True, True] 3)
   \<and> (\<exists>bf'. insert_bf testHash (sample [False, True, True, True] 3) 0 = Inr bf')
   \<and> (\<exists>b. find_bf testHash (sample [False, True, True, True] 3) 0 =
         Inr (b, sample [False, True, True, True] 3))
   \<and> (\<exists>vs. insert_visits testHash (sample [False, True, True, True] 3) 0 = Inr vs
         \<and> (\<forall>i \<in> set vs. 0 \<le> i \<and> i < 4))
   \<and> (\<exists>vs. find_visits testHash (sample [False, True, True, True] 3) 0 = Inr vs
         \<and> (\<forall>i \<in> set vs. 0 \<le> i \<and> i < 4))"
proof -
  have s: "1 \<le> size' (sample [False, True, True, True] 3)" by simp
  from insert_find_total [OF init_1_2_quarter sample_calls_2_1 s, of 0]
    init_1_2_quarter sample_calls_2_1
  show ?thesis by simp
qed

text \<open>
  C6, as the source has it. The claim says that find returns false or true according to
  the derived bits, on any filter. On \<^verbatim>\<open>BloomFilter(1, 1, 3.0)\<close>, which is constructed
  with no bits at all, find returns neither: \<^verbatim>\<open>h % self.__size\<close> divides by zero before
  any bit is derived.
\<close>

theorem find_no_answer:
  "BloomFilter_init 1 1 3 =
     Inr \<lparr>size' = 0, bv = [], numKeys = 1, numHashes = 1, maxFalsePositive = 3,
          numBitsSet' = 0\<rparr>
   \<and> find_bf testHash
       \<lparr>size' = 0, bv = [], numKeys = 1, numHashes = 1, maxFalsePositive = 3,
        numBitsSet' = 0\<rparr> 7 = Inl ZeroDivisionError"
  using init_1_1_3 by (simp add: find_bf_def)

text \<open>
  C6, amended. On every constructed filter whose \<open>capacityBits\<close> is at least 1,
  \<open>find(key)\<close> returns, and its answer is true exactly when every one of the \<open>hashCount\<close>
  bits derived for the key is 1: false if any of them is 0, true if all of them are 1.
  It returns the object as it was.
\<close>

theorem find_answer:
  assumes "BloomFilter_init n k p = Inr bf0" and "calls H bf0 cs = Inr bf"
    and "1 \<le> size' bf"
  shows "find_bf H bf key =
     Inr (list_all (\<lambda>i. bv bf ! nat i) (hashIndices H bf key), bf)"
  using reached(1) [OF assms(1,2)] assms(3) by (simp add: find_bf_eq)

theorem find_answer_witness:
  "BloomFilter_init 1 2 (1 / 4) = Inr (sample [False, False, False, False] 0)
   \<and> calls testHash (sample [False, False, False, False] 0) [Insert 2, Insert 1] =
       Inr (sample [False, True, True, True] 3)
   \<and> 1 \<le> size' (sample [False, True, True, True] 3)
   \<and> find_bf testHash (sample [False, True, True, True] 3) 3 =
       Inr (True, sample [False, True, True, True] 3)
   \<and> find_bf testHash (sample [False, True, True, True] 3) 0 =
       Inr (False, sample [False, True, True, True] 3)
   \<and> hashIndices testHash (sample [False, True, True, True] 3) 3 = [3, 1]
   \<and> hashIndices testHash (sample [False, True, True, True] 3) 0 = [0, 0]"
proof -
  have s: "1 \<le> size' (sample [False, True, True, True] 3)" by simp
  from find_answer [OF init_1_2_quarter sample_calls_2_1 s, of 3]
    find_answer [OF init_1_2_quarter sample_calls_2_1 s, of 0]
    init_1_2_quarter sample_calls_2_1
  show ?thesis by (simp add: sample_indices_3 sample_indices_0)
qed

text \<open>
  C7, as the source has it. The claim says that the projected rate always lies in
  \<open>[0, 1]\<close>. On \<^verbatim>\<open>BloomFilter(1, 1, 3.0)\<close>, which has no bits, the division by
  \<^verbatim>\<open>self.__size\<close> raises; on \<^verbatim>\<open>BloomFilter(1, -1, -2.0)\<close>, which has two bits and a
  negative \<open>hashCount\<close>, \<^verbatim>\<open>0.0 ** -1\<close> raises.
\<close>

theorem rate_raises:
  "BloomFilter_init 1 1 3 =
     Inr \<lparr>size' = 0, bv = [], numKeys = 1, numHashes = 1, maxFalsePositive = 3,
          numBitsSet' = 0\<rparr>
   \<and> falsePositiveRate
       \<lparr>size' = 0, bv = [], numKeys = 1, numHashes = 1, maxFalsePositive = 3,
        numBitsSet' = 0\<rparr> = Inl ZeroDivisionError
   \<and> BloomFilter_init 1 (- 1) (- 2) =
     Inr \<lparr>size' = 2, bv = [False, False], numKeys = 1, numHashes = - 1,
          maxFalsePositive = - 2, numBitsSet' = 0\<rparr>
   \<and> falsePositiveRate
       \<lparr>size' = 2, bv = [False, False], numKeys = 1, numHashes = - 1,
        maxFalsePositive = - 2, numBitsSet' = 0\<rparr> = Inl ZeroDivisionError"
  using init_1_1_3 init_1_minus1_minus2 by (simp add: falsePositiveRate_def)

text \<open>
  C7, amended. On every constructed filter with \<open>capacityBits\<close> and \<open>hashCount\<close> at least
  1, \<open>falsePositiveRate()\<close> returns \<open>(setBitCount / capacityBits) ^ hashCount\<close>, computed
  from the object as it is at the call and leaving it as it was; the result lies in
  \<open>[0, 1]\<close> and is 0 when \<open>setBitCount\<close> is 0. The arithmetic is that of the reals.
\<close>

theorem rate_in_unit_interval:
  assumes "BloomFilter_init n k p = Inr bf0" and "calls H bf0 cs = Inr bf"
    and "1 \<le> size' bf" and "1 \<le> numHashes bf"
  shows "\<exists>r. falsePositiveRate bf = Inr (r, bf)
     \<and> r = (real_of_int (fst (numBitsSet bf)) / real_of_int (size' bf)) ^ nat (numHashes bf)
     \<and> 0 \<le> r \<and> r \<le> 1 \<and> (fst (numBitsSet bf) = 0 \<longrightarrow> r = 0)"
proof -
  note r = reached [OF assms(1,2)]
  define c where "c = numBitsSet' bf"
  define q where "q = real_of_int c / real_of_int (size' bf)"
  have c0: "0 \<le> c" using r(2) by (simp add: counted_def c_def)
  have "length (filter (\<lambda>b. b) (bv bf)) \<le> length (bv bf)" by (rule length_filter_le)
  then have cs: "c \<le> size' bf" using r(1,2) by (simp add: sized_def counted_def c_def)
  have q0: "0 \<le> q" using c0 assms(3) by (simp add: q_def)
  have q1: "q \<le> 1" using cs assms(3) by (simp add: q_def)
  have f: "falsePositiveRate bf = Inr (q ^ nat (numHashes bf), bf)"
    using assms(3,4) by (simp add: falsePositiveRate_def q_def c_def Let_def power_int_def)
  have z: "c = 0 \<longrightarrow> q ^ nat (numHashes bf) = 0"
    using assms(4) by (simp add: q_def)
  have "0 \<le> q ^ nat (numHashes bf)" using q0 by simp
  moreover have "q ^ nat (numHashes bf) \<le> 1" using q0 q1 by (rule power_le_one)
  ultimately show ?thesis using f z by (simp add: numBitsSet_def q_def c_def)
qed

theorem rate_in_unit_interval_witness:
  "BloomFilter_init 1 2 (1 / 4) = Inr (sample [False, False, False, False] 0)
   \<and> calls testHash (sample [False, False, False, False] 0) [Insert 2, Insert 1] =
       Inr (sample [False, True, True, True] 3)
   \<and> 1 \<le> size' (sample [False, True, True, True] 3)
   \<and> 1 \<le> numHashes (sample [False, True, True, True] 3)
   \<and> falsePositiveRate (sample [False, True, True, True] 3) =
       Inr (9 / 16, sample [False, True, True, True] 3)
   \<and> (0::real) \<le> 9 / 16 \<and> (9 / 16 :: real) \<le> 1"
proof -
  have s: "1 \<le> size' (sample [False, True, True, True] 3)"
    and h: "1 \<le> numHashes (sample [False, True, True, True] 3)"
    by simp_all
  from rate_in_unit_interval [OF init_1_2_quarter sample_calls_2_1 s h]
  obtain r where
    f: "falsePositiveRate (sample [False, True, True, True] 3) =
          Inr (r, sample [False, True, True, True] 3)"
    and e: "r = (real_of_int (fst (numBitsSet (sample [False, True, True, True] 3)))
                / real_of_int (size' (sample [False, True, True, True] 3)))
              ^ nat (numHashes (sample [False, True, True, True] 3))"
    by blast
  from e have "r = 9 / 16" by (simp add: numBitsSet_def eval_nat_numeral)
  with f init_1_2_quarter sample_calls_2_1 show ?thesis by simp
qed

text \<open>
  C8. Whatever calls were made, the counter \<open>numBitsSet'\<close> is the exact number of bits
  that are 1 in the bit vector, so it lies between 0 and \<open>capacityBits\<close>; and
  \<open>numBitsSet()\<close> returns that counter, from the field, and leaves the object as it was.
\<close>

theorem counter_exact:
  assumes "BloomFilter_init n k p = Inr bf0" and "calls H bf0 cs = Inr bf"
  shows "numBitsSet' bf = int (length (filter (\<lambda>b. b) (bv bf)))
     \<and> 0 \<le> numBitsSet' bf \<and> numBitsSet' bf \<le> size' bf
     \<and> size' bf = int (length (bv bf))
     \<and> numBitsSet bf = (numBitsSet' bf, bf)"
proof -
  note r = reached [OF assms]
  have c: "numBitsSet' bf = int (length (filter (\<lambda>b. b) (bv bf)))"
    using r(2) by (simp add: counted_def)
  have s: "size' bf = int (length (bv bf))" using r(1) by (simp add: sized_def)
  have "length (filter (\<lambda>b. b) (bv bf)) \<le> length (bv bf)" by (rule length_filter_le)
  then have "numBitsSet' bf \<le> size' bf" using c s by simp
  moreover have "0 \<le> numBitsSet' bf" using c by simp
  ultimately show ?thesis using c s by (simp add: numBitsSet_def)
qed

theorem counter_exact_witness:
  "BloomFilter_init 1 2 (1 / 4) = Inr (sample [False, False, False, False] 0)
   \<and> calls testHash (sample [False, False, False, False] 0) [Insert 2, Insert 1] =
       Inr (sample [False, True, True, True] 3)
   \<and> int (length (filter (\<lambda>b. b) [False, True, True, True])) = 3
   \<and> numBitsSet (sample [False, True, True, True] 3) =
       (3, sample [False, True, True, True] 3)"
  using counter_exact [OF init_1_2_quarter sample_calls_2_1]
    init_1_2_quarter sample_calls_2_1
  by simp

text \<open>
  C9. Once \<open>insert(x)\<close> has returned, whatever is called afterwards, a further
  \<open>insert(x)\<close> returns the object exactly as it found it: the bit vector and the counter,
  hence what \<open>numBitsSet()\<close> returns, do not change.
\<close>

theorem insert_again:
  assumes "BloomFilter_init n k p = Inr bf0"
    and "calls H bf0 before = Inr bf1"
    and "insert_bf H bf1 x = Inr bf2"
    and "calls H bf2 after = Inr bf3"
  shows "insert_bf H bf3 x = Inr bf3"
proof -
  note r1 = reached [OF assms(1,2)]
  note k = insert_bf_keeps [OF r1(1) assms(3)]
  from assms(3) r1(1) have c1: "\<not> (size' bf1 = 0 \<and> 0 < numHashes bf1)"
    by (simp add: insert_bf_eq split: if_splits)
  then have c2: "\<not> (size' bf2 = 0 \<and> 0 < numHashes bf2)"
    using k(2,3) by simp
  have "hashIndices H bf2 x = hashIndices H bf1 x"
    using k(2,3) by (intro hashIndices_cong) simp_all
  with k(6) have a2: "list_all (\<lambda>i. bv bf2 ! nat i) (hashIndices H bf2 x)" by simp
  note a3 = still_set [OF k(1) a2 c2 assms(4)]
  note k3 = calls_keeps [OF k(1) assms(4)]
  have "\<not> (size' bf3 = 0 \<and> 0 < numHashes bf3)" using c2 k3 by simp
  moreover have "sized bf3" using k3 by simp
  ultimately show ?thesis using a3 by (simp add: insert_bf_eq foldl_mark_set)
qed

theorem insert_again_witness:
  "BloomFilter_init 1 2 (1 / 4) = Inr (sample [False, False, False, False] 0)
   \<and> calls testHash (sample [False, False, False, False] 0) [Insert 2, Find 1] =
       Inr (sample [False, False, True, False] 1)
   \<and> insert_bf testHash (sample [False, False, True, False] 1) 1 =
       Inr (sample [False, True, True, True] 3)
   \<and> calls testHash (sample [False, True, True, True] 3) [] =
       Inr (sample [False, True, True, True] 3)
   \<and> insert_bf testHash (sample [False, True, True, True] 3) 1 =
       Inr (sample [False, True, True, True] 3)"
proof -
  have e: "calls testHash (sample [False, True, True, True] 3) [] =
       Inr (sample [False, True, True, True] 3)"
    by simp
  from insert_again [OF init_1_2_quarter sample_calls_2 sample_insert_1 e]
    init_1_2_quarter sample_calls_2 sample_insert_1
  show ?thesis by simp
qed

end
